theory Spec2Isabelle
  imports Complex_Main "HOL-Library.Multiset"
begin

section \<open>Timeline segmenter (modules/video\_editor/video\_editor.py)\<close>

text \<open>
  Times are Python floats (seconds).  A float is a rational number, and comparing two
  floats is exact, so times are rationals.  Subtracting two floats rounds: the result of
  \<^verbatim>\<open>end - start\<close> is the rounding of the exact difference.  The rounding is a
  parameter \<open>rnd\<close> of every function that subtracts (the identity gives exact
  arithmetic), so that what is proved holds for the double-precision rounding too.
  A keep- or remove-segment is the dict \<^verbatim>\<open>{'start_time': s, 'end_time': e}\<close> with
  both keys present.
\<close>

record segment =
  start_time :: rat
  end_time :: rat

subsection \<open>\<^verbatim>\<open>_get_segments_to_keep\<close>\<close>

text \<open>
  The loop \<^verbatim>\<open>for i in range(len(segments_to_remove) - 1)\<close> looks at every adjacent
  pair \<^verbatim>\<open>(segments_to_remove[i], segments_to_remove[i + 1])\<close> from left to right.
\<close>

fun segments_between :: "segment list \<Rightarrow> segment list" where
  "segments_between (current # next # rest) =
     (let current_end = end_time current; next_start = start_time next in
      (if next_start > current_end
       then [\<lparr>start_time = current_end, end_time = next_start\<rparr>] else [])
      @ segments_between (next # rest))"
| "segments_between _ = []"

definition get_segments_to_keep :: "segment list \<Rightarrow> rat \<Rightarrow> segment list" where
  "get_segments_to_keep segments_to_remove video_duration =
     (if segments_to_remove = [] then [\<lparr>start_time = 0, end_time = video_duration\<rparr>]
      else
        (if start_time (hd segments_to_remove) > 0
         then [\<lparr>start_time = 0, end_time = start_time (hd segments_to_remove)\<rparr>] else [])
        @ segments_between segments_to_remove
        @ (if end_time (last segments_to_remove) < video_duration
           then [\<lparr>start_time = end_time (last segments_to_remove),
                   end_time = video_duration\<rparr>] else []))"

subsection \<open>\<^verbatim>\<open>_merge_short_segments\<close>\<close>

text \<open>
  The body of \<^verbatim>\<open>for segment in segments[1:]\<close>, with the accumulator
  \<^verbatim>\<open>merged_segments\<close> passed along.  The accumulator is seeded with one segment
  and never shrinks, so \<^verbatim>\<open>merged_segments[-1]\<close> always exists.
\<close>

fun merge_loop ::
  "(rat \<Rightarrow> rat) \<Rightarrow> rat \<Rightarrow> segment list \<Rightarrow> segment list \<Rightarrow> segment list" where
  "merge_loop rnd min_duration merged_segments [] = merged_segments"
| "merge_loop rnd min_duration merged_segments (segment # rest) =
     (let last_segment = last merged_segments in
      if rnd (end_time segment - start_time segment) < min_duration then
        if rnd (end_time last_segment - start_time last_segment) < min_duration then
          merge_loop rnd min_duration
            (butlast merged_segments @
               [\<lparr>start_time = start_time last_segment, end_time = end_time segment\<rparr>]) rest
        else merge_loop rnd min_duration (merged_segments @ [segment]) rest
      else merge_loop rnd min_duration (merged_segments @ [segment]) rest)"

definition merge_short_segments ::
  "(rat \<Rightarrow> rat) \<Rightarrow> rat \<Rightarrow> segment list \<Rightarrow> segment list" where
  "merge_short_segments rnd min_duration segments =
     (if segments = [] then []
      else if length segments = 1 then segments
      else merge_loop rnd min_duration [hd segments] (tl segments))"

subsection \<open>The merge policy as the specification words it\<close>

text \<open>
  The duration of an interval is the float \<^verbatim>\<open>end - start\<close>; an interval is short when
  its duration is strictly below the minimum.
\<close>

definition duration :: "(rat \<Rightarrow> rat) \<Rightarrow> segment \<Rightarrow> rat" where
  "duration rnd s = rnd (end_time s - start_time s)"

definition is_short :: "(rat \<Rightarrow> rat) \<Rightarrow> rat \<Rightarrow> segment \<Rightarrow> bool" where
  "is_short rnd min_duration s = (duration rnd s < min_duration)"

text \<open>
  A rounding for concrete runs: to the nearest multiple of \<open>2^-p\<close>.  The doubles
  between 4 and 8 are the multiples of \<open>2^-50\<close>, so for a result in that interval
  \<open>round_to_grid 50\<close> is the double rounding.
\<close>

definition round_to_grid :: "nat \<Rightarrow> rat \<Rightarrow> rat" where
  "round_to_grid p x = of_int \<lfloor>x * 2 ^ p + 1 / 2\<rfloor> / 2 ^ p"

text \<open>
  One step of the specified pass: merge into the accumulator's last interval (extending
  its end) when the new interval and the accumulator's last interval are both short,
  append unmodified otherwise.
\<close>

definition merge_short_step ::
  "(rat \<Rightarrow> rat) \<Rightarrow> rat \<Rightarrow> segment list \<Rightarrow> segment \<Rightarrow> segment list" where
  "merge_short_step rnd min_duration acc s =
     (if is_short rnd min_duration s \<and> is_short rnd min_duration (last acc)
      then butlast acc @ [(last acc)\<lparr>end_time := end_time s\<rparr>]
      else acc @ [s])"

definition merge_short_spec ::
  "(rat \<Rightarrow> rat) \<Rightarrow> rat \<Rightarrow> segment list \<Rightarrow> segment list" where
  "merge_short_spec rnd min_duration keep =
     foldl (merge_short_step rnd min_duration) [hd keep] (tl keep)"

text \<open>A list is settled when no two neighbours are both short.\<close>

definition both_short :: "(rat \<Rightarrow> rat) \<Rightarrow> rat \<Rightarrow> segment \<Rightarrow> segment \<Rightarrow> bool" where
  "both_short rnd m a b = (is_short rnd m a \<and> is_short rnd m b)"

definition settled :: "(rat \<Rightarrow> rat) \<Rightarrow> rat \<Rightarrow> segment list \<Rightarrow> bool" where
  "settled rnd m xs = successively (\<lambda>a b. \<not> both_short rnd m a b) xs"

subsection \<open>Tiling of the timeline\<close>

text \<open>
  \<open>tiles a b xs\<close>: the segments of \<open>xs\<close>, in list order, cover \<open>[a, b)\<close> exactly:
  the first starts at \<open>a\<close>, each has positive duration, each next one starts where the
  previous one ends, and the last ends at \<open>b\<close>.

  \<open>valid_remove rs D\<close>: the remove-list is inside \<open>[0, D]\<close> with positive durations,
  sorted by start and pairwise non-overlapping.

  \<open>keep_from\<close>, \<open>weave\<close>, \<open>chain\<close> and \<open>closing\<close> are proof devices: the keep-list
  and the interleaved keep/remove list computed from a running left boundary.
\<close>

fun tiles :: "rat \<Rightarrow> rat \<Rightarrow> segment list \<Rightarrow> bool" where
  "tiles a b [] = (a = b)"
| "tiles a b (s # rest) =
     (start_time s = a \<and> start_time s < end_time s \<and> tiles (end_time s) b rest)"

definition valid_remove :: "segment list \<Rightarrow> rat \<Rightarrow> bool" where
  "valid_remove rs D =
     (list_all (\<lambda>s. 0 \<le> start_time s \<and> start_time s < end_time s \<and> end_time s \<le> D) rs
      \<and> sorted (map start_time rs)
      \<and> sorted_wrt (\<lambda>a b. end_time a \<le> start_time b) rs)"

fun keep_from :: "rat \<Rightarrow> segment list \<Rightarrow> rat \<Rightarrow> segment list" where
  "keep_from a [] D = (if a < D then [\<lparr>start_time = a, end_time = D\<rparr>] else [])"
| "keep_from a (r # rs) D =
     (if a < start_time r then [\<lparr>start_time = a, end_time = start_time r\<rparr>] else [])
     @ keep_from (end_time r) rs D"

fun weave :: "rat \<Rightarrow> segment list \<Rightarrow> rat \<Rightarrow> segment list" where
  "weave a [] D = (if a < D then [\<lparr>start_time = a, end_time = D\<rparr>] else [])"
| "weave a (r # rs) D =
     (if a < start_time r then [\<lparr>start_time = a, end_time = start_time r\<rparr>] else [])
     @ r # weave (end_time r) rs D"

fun chain :: "rat \<Rightarrow> segment list \<Rightarrow> rat \<Rightarrow> bool" where
  "chain a [] D = (a \<le> D)"
| "chain a (r # rs) D = (a \<le> start_time r \<and> start_time r < end_time r \<and> chain (end_time r) rs D)"

definition closing :: "rat \<Rightarrow> rat \<Rightarrow> segment list" where
  "closing e D = (if e < D then [\<lparr>start_time = e, end_time = D\<rparr>] else [])"

subsection \<open>\<^verbatim>\<open>_validate_segments\<close> and the segment planning of \<^verbatim>\<open>edit_video\<close>\<close>

text \<open>
  The caller passes a list of dict objects, and validation assigns into those objects.
  To keep that visible, a dict is a map from keys to numbers, the heap maps object
  references to dicts, and a Python list of dicts is a list of references.  Values are
  numbers, for which \<^verbatim>\<open>float(v)\<close> keeps the value, so the two coercing assignments
  store the value that was read.  The calls of \<^verbatim>\<open>logger.warning\<close> are recorded in
  order, each with the index \<^verbatim>\<open>i\<close> of \<^verbatim>\<open>enumerate\<close>.
\<close>

datatype py_error = KeyError | ValueError | ZeroDivisionError | CvError

type_synonym pydict = "string \<rightharpoonup> rat"
type_synonym ref = nat
type_synonym heap = "ref \<Rightarrow> pydict"

datatype warning = Start_clamped nat | End_clamped nat | Non_positive_duration nat

text \<open>
  The body of \<^verbatim>\<open>for i, segment in enumerate(segments)\<close>.  A raise leaves the
  assignments made so far in the heap, so the heap is returned in both cases.
\<close>

fun validate_loop ::
  "rat \<Rightarrow> nat \<Rightarrow> ref list \<Rightarrow> heap \<times> warning list \<Rightarrow> (heap \<times> warning list) \<times> py_error option"
where
  "validate_loop video_duration i [] (h, msgs) = ((h, msgs), None)"
| "validate_loop video_duration i (segment # rest) (h, msgs) =
     (if h segment ''start_time'' = None \<or> h segment ''end_time'' = None
      then ((h, msgs), Some ValueError)
      else
        let h = h(segment := (h segment)(''start_time'' \<mapsto> the (h segment ''start_time'')));
            h = h(segment := (h segment)(''end_time'' \<mapsto> the (h segment ''end_time'')));
            (h, msgs) =
              (if the (h segment ''start_time'') < 0
               then (h(segment := (h segment)(''start_time'' \<mapsto> 0)), msgs @ [Start_clamped i])
               else (h, msgs));
            (h, msgs) =
              (if the (h segment ''end_time'') > video_duration
               then (h(segment := (h segment)(''end_time'' \<mapsto> video_duration)),
                     msgs @ [End_clamped i])
               else (h, msgs));
            msgs =
              (if the (h segment ''end_time'') \<le> the (h segment ''start_time'')
               then msgs @ [Non_positive_duration i] else msgs)
        in validate_loop video_duration (i + 1) rest (h, msgs))"

definition validate_segments ::
  "heap \<Rightarrow> ref list \<Rightarrow> rat \<Rightarrow> (heap \<times> warning list) \<times> py_error option" where
  "validate_segments h segments video_duration = validate_loop video_duration 0 segments (h, [])"

text \<open>
  \<^verbatim>\<open>sorted(segments_to_remove, key=lambda x: x["start_time"])\<close>: a new list of the
  same references, stable; the key function raises KeyError on a dict without the key.
\<close>

definition sorted_by_start :: "heap \<Rightarrow> ref list \<Rightarrow> py_error + ref list" where
  "sorted_by_start h segments =
     (if list_ex (\<lambda>x. h x ''start_time'' = None) segments then Inl KeyError
      else Inr (sort_key (\<lambda>x. the (h x ''start_time'')) segments))"

definition deref :: "heap \<Rightarrow> ref \<Rightarrow> segment" where
  "deref h x = \<lparr>start_time = the (h x ''start_time''), end_time = the (h x ''end_time'')\<rparr>"

text \<open>
  Lines 76 to 86 of \<^verbatim>\<open>edit_video\<close>: sort, validate, complement, merge.  The result
  records the heap and the warnings after validation, the remove-list handed to
  \<^verbatim>\<open>_get_segments_to_keep\<close>, and the keep-list (or the exception raised).
\<close>

record plan =
  heap_after :: heap
  warnings :: "warning list"
  removed :: "segment list"
  kept :: "py_error + segment list"

definition edit_video_plan ::
  "(rat \<Rightarrow> rat) \<Rightarrow> rat \<Rightarrow> heap \<Rightarrow> ref list \<Rightarrow> rat \<Rightarrow> plan" where
  "edit_video_plan rnd min_segment_duration h segments_to_remove video_duration =
     (case sorted_by_start h segments_to_remove of
        Inl e \<Rightarrow> \<lparr>heap_after = h, warnings = [], removed = [], kept = Inl e\<rparr>
      | Inr segments_to_remove \<Rightarrow>
          (case validate_segments h segments_to_remove video_duration of
             ((h, msgs), Some e) \<Rightarrow> \<lparr>heap_after = h, warnings = msgs, removed = [], kept = Inl e\<rparr>
           | ((h, msgs), None) \<Rightarrow>
               let removed = map (deref h) segments_to_remove;
                   segments_to_keep = get_segments_to_keep removed video_duration;
                   segments_to_keep =
                     (if min_segment_duration > 0
                      then merge_short_segments rnd min_segment_duration segments_to_keep
                      else segments_to_keep)
               in \<lparr>heap_after = h, warnings = msgs, removed = removed,
                    kept = Inr segments_to_keep\<rparr>))"





section \<open>Frame selection (modules/thumbnail\_generator/thumbnail\_generator.py)\<close>

subsection \<open>Numbers\<close>

text \<open>
  Frame counts and frame indices are Python ints.  \<^verbatim>\<open>int(x)\<close> of a float truncates
  towards zero.  The products \<^verbatim>\<open>frame_count * 0.05\<close>, \<^verbatim>\<open>frame_count * 0.95\<close> and the
  quotient \<^verbatim>\<open>frame_count / 500\<close> are taken exactly, with \<open>0.05\<close> and \<open>0.95\<close> read as
  decimals: the exact value is either an integer or at least \<open>1/500\<close> away from one, and
  the double result differs from it by a few roundings, so the truncated integer is the
  same for every frame count a video can have.  The
  uniform step \<^verbatim>\<open>usable_frame_count / num_frames\<close> is different: there the rounding of
  the double operations can move \<^verbatim>\<open>int(start_frame + i * step)\<close> by one, so the result
  of each float operation passes through a rounding function \<open>rnd\<close> that the model takes
  as a parameter (the identity gives exact arithmetic).
\<close>

definition py_int :: "rat \<Rightarrow> int" where
  "py_int x = (if x < 0 then \<lceil>x\<rceil> else \<lfloor>x\<rfloor>)"

subsection \<open>\<^verbatim>\<open>_extract_uniform_frames\<close>: the proposed indices\<close>

text \<open>
  Lines 169 to 186: the list \<^verbatim>\<open>frame_indices\<close>.  \<^verbatim>\<open>list(range(a, b))\<close> is
  \<open>[a..b - 1]\<close>, and \<^verbatim>\<open>range(num_frames)\<close> is \<open>[0..num_frames - 1]\<close>, empty when
  \<^verbatim>\<open>num_frames\<close> is not positive.  The float division raises ZeroDivisionError when
  \<^verbatim>\<open>num_frames\<close> is zero.
\<close>

definition uniform_frame_indices :: "(rat \<Rightarrow> rat) \<Rightarrow> int \<Rightarrow> int \<Rightarrow> py_error + int list" where
  "uniform_frame_indices rnd num_frames frame_count =
     (let start_frame = py_int (of_int frame_count * 0.05);
          end_frame = py_int (of_int frame_count * 0.95);
          usable_frame_count = end_frame - start_frame;
          (start_frame, end_frame, usable_frame_count) =
            (if usable_frame_count \<le> 0 then (0, frame_count, frame_count)
             else (start_frame, end_frame, usable_frame_count))
      in if num_frames \<ge> usable_frame_count then Inr [start_frame..end_frame - 1]
         else if num_frames = 0 then Inl ZeroDivisionError
         else let step = rnd (of_int usable_frame_count / of_int num_frames)
              in Inr (map (\<lambda>i. py_int (rnd (of_int start_frame + rnd (of_int i * step))))
                        [0..num_frames - 1]))"

subsection \<open>\<^verbatim>\<open>_extract_random_frames\<close>: what is handed to \<^verbatim>\<open>random.sample\<close>\<close>

text \<open>
  Lines 302 to 316: the population \<^verbatim>\<open>range(start_frame, end_frame)\<close> and the sample
  size.  The draw itself is the library's.
\<close>

definition random_sample_arguments :: "int \<Rightarrow> int \<Rightarrow> int list \<times> int" where
  "random_sample_arguments num_frames frame_count =
     (let start_frame = py_int (of_int frame_count * 0.05);
          end_frame = py_int (of_int frame_count * 0.95);
          usable_frame_count = end_frame - start_frame;
          (start_frame, end_frame, usable_frame_count) =
            (if usable_frame_count \<le> 0 then (0, frame_count, frame_count)
             else (start_frame, end_frame, usable_frame_count))
      in ([start_frame..end_frame - 1], min (num_frames * 3) usable_frame_count))"

subsection \<open>The candidate range as the specification words it\<close>

text \<open>
  The usable index range \<open>[lo, hi)\<close> of a strategy: the restricted range from
  \<open>int(0.05 * frame_count)\<close> to \<open>int(0.95 * frame_count)\<close>, or the full range
  \<open>[0, frame_count)\<close> when the restricted one has no index.
\<close>

definition usable_range :: "int \<Rightarrow> int \<times> int" where
  "usable_range frame_count =
     (let start = py_int (of_int frame_count * 0.05);
          stop = py_int (of_int frame_count * 0.95)
      in if stop - start \<le> 0 then (0, frame_count) else (start, stop))"

subsection \<open>\<^verbatim>\<open>_extract_key_moment_frames\<close>: probes and ranking\<close>

text \<open>
  \<^verbatim>\<open>range(start, stop, step)\<close> for a positive step.  The source only calls it with
  \<^verbatim>\<open>sample_rate\<close>, which is at least 1; a step that is not positive yields no index
  here.
\<close>

function py_range :: "int \<Rightarrow> int \<Rightarrow> int \<Rightarrow> int list" where
  "py_range start stop step =
     (if step \<le> 0 \<or> stop \<le> start then [] else start # py_range (start + step) stop step)"
  by pat_completeness auto
termination
  by (relation "measure (\<lambda>(start, stop, step). nat (stop - start))") auto

declare py_range.simps [simp del]

definition key_moment_sample_rate :: "int \<Rightarrow> int" where
  "key_moment_sample_rate frame_count = max 1 (py_int (of_int frame_count / 500))"

text \<open>Lines 228 to 238: the frame indices the loop visits.\<close>

definition key_moment_probes :: "int \<Rightarrow> int list" where
  "key_moment_probes frame_count =
     (let start_frame = py_int (of_int frame_count * 0.05);
          end_frame = py_int (of_int frame_count * 0.95);
          sample_rate = key_moment_sample_rate frame_count
      in py_range start_frame end_frame sample_rate)"

text \<open>
  Lines 238 to 257: the loop that fills \<^verbatim>\<open>frame_diffs\<close>.  \<open>read\<close> is the decoder
  (\<^verbatim>\<open>video.set\<close> then \<^verbatim>\<open>video.read\<close>; \<open>None\<close> when \<^verbatim>\<open>success\<close> is false),
  \<open>to_gray\<close> is \<^verbatim>\<open>cv2.cvtColor\<close> on a frame that was read, and \<open>diff_score\<close> is
  \<^verbatim>\<open>np.sum(cv2.absdiff(gray, prev_frame)) / (rows * columns)\<close>.  An entry is the
  triple \<^verbatim>\<open>(frame_idx, diff_score, frame)\<close>.
\<close>

fun frame_diffs_loop ::
  "(int \<Rightarrow> 'frame option) \<Rightarrow> ('frame \<Rightarrow> 'gray) \<Rightarrow> ('gray \<Rightarrow> 'gray \<Rightarrow> rat) \<Rightarrow>
   'gray option \<Rightarrow> int list \<Rightarrow> (int \<times> rat \<times> 'frame) list"
where
  "frame_diffs_loop read to_gray diff_score prev_frame [] = []"
| "frame_diffs_loop read to_gray diff_score prev_frame (frame_idx # rest) =
     (case read frame_idx of
        None \<Rightarrow> frame_diffs_loop read to_gray diff_score prev_frame rest
      | Some frame \<Rightarrow>
          (let gray = to_gray frame in
           (case prev_frame of
              None \<Rightarrow> []
            | Some prev \<Rightarrow> [(frame_idx, diff_score gray prev, frame)])
           @ frame_diffs_loop read to_gray diff_score (Some gray) rest))"

text \<open>
  \<^verbatim>\<open>xs.sort(key=key, reverse=True)\<close>.  Python's sort is stable and stays stable with
  \<^verbatim>\<open>reverse=True\<close>: elements with equal keys keep their original order.  That is a
  stable ascending sort of the reversed list, reversed again.
\<close>

definition sort_reverse :: "('a \<Rightarrow> rat) \<Rightarrow> 'a list \<Rightarrow> 'a list" where
  "sort_reverse key xs = rev (sort_key key (rev xs))"

definition key_moment_ranking ::
  "(int \<Rightarrow> 'frame option) \<Rightarrow> ('frame \<Rightarrow> 'gray) \<Rightarrow> ('gray \<Rightarrow> 'gray \<Rightarrow> rat) \<Rightarrow> int \<Rightarrow>
   (int \<times> rat \<times> 'frame) list" where
  "key_moment_ranking read to_gray diff_score frame_count =
     (let frame_diffs =
            frame_diffs_loop read to_gray diff_score None (key_moment_probes frame_count)
      in sort_reverse (\<lambda>x. fst (snd x)) frame_diffs)"

text \<open>
  The order the ranking is claimed to have: higher score first, and for equal scores
  the lower frame index first.
\<close>

definition ranked_before :: "int \<times> rat \<times> 'frame \<Rightarrow> int \<times> rat \<times> 'frame \<Rightarrow> bool" where
  "ranked_before a b =
     (fst (snd a) > fst (snd b) \<or> (fst (snd a) = fst (snd b) \<and> fst a < fst b))"

subsection \<open>\<^verbatim>\<open>_is_good_quality_frame\<close>\<close>

text \<open>
  The function calls \<^verbatim>\<open>cv2.cvtColor\<close>, \<^verbatim>\<open>np.mean\<close>, \<^verbatim>\<open>np.std\<close>,
  \<^verbatim>\<open>cv2.Laplacian\<close> and \<^verbatim>\<open>np.var\<close>, none of which is code of the repository.  They
  are parameters of the model.  The two OpenCV calls can raise, so they return an error
  or a value; the last field is \<^verbatim>\<open>np.var(cv2.Laplacian(gray, cv2.CV_64F))\<close>.  The
  function has no \<^verbatim>\<open>try\<close>, so an exception of a call leaves the function.
\<close>

record ('frame, 'gray) image_library =
  cvtColor_gray :: "'frame \<Rightarrow> py_error + 'gray"
  np_mean :: "'gray \<Rightarrow> rat"
  np_std :: "'gray \<Rightarrow> rat"
  laplacian_var :: "'gray \<Rightarrow> py_error + rat"

definition is_good_quality_frame ::
  "('frame, 'gray) image_library \<Rightarrow> rat \<Rightarrow> rat \<Rightarrow> 'frame \<Rightarrow> py_error + bool" where
  "is_good_quality_frame lib min_brightness min_contrast frame =
     (case cvtColor_gray lib frame of
        Inl err \<Rightarrow> Inl err
      | Inr gray \<Rightarrow>
          (let brightness = np_mean lib gray in
           if brightness < min_brightness then Inr False
           else
             (let contrast = np_std lib gray in
              if contrast < min_contrast then Inr False
              else
                (case laplacian_var lib gray of
                   Inl err \<Rightarrow> Inl err
                 | Inr sharpness \<Rightarrow> if sharpness < 100 then Inr False else Inr True))))"

text \<open>
  A library instance for concrete runs, on frames given as rows of grey values.  Only
  its first field matters where it is used: OpenCV's colour conversion asserts that its
  source is not empty and raises \<^verbatim>\<open>cv2.error\<close> on a frame without pixels.
\<close>

definition asserting_library :: "(nat list list, nat list list) image_library" where
  "asserting_library =
     \<lparr>cvtColor_gray = (\<lambda>frame. if concat frame = [] then Inl CvError else Inr frame),
      np_mean = (\<lambda>gray. of_nat (sum_list (concat gray)) / of_nat (length (concat gray))),
      np_std = (\<lambda>gray. 0),
      laplacian_var = (\<lambda>gray. Inr 0)\<rparr>"

section \<open>Properties of the timeline segmenter\<close>

subsection \<open>Floors of rational numerals\<close>

lemma floor_rat_numeral [simp]:
  "\<lfloor>numeral a / numeral b :: rat\<rfloor> = numeral a div numeral b"
  using floor_divide_of_int_eq [of "numeral a" "numeral b", where ?'a = rat] by simp

lemma floor_rat_one_numeral [simp]:
  "\<lfloor>1 / numeral b :: rat\<rfloor> = 1 div numeral b"
  using floor_divide_of_int_eq [of 1 "numeral b", where ?'a = rat] by simp

subsection \<open>The merge pass\<close>

lemma settled_snoc:
  "xs \<noteq> [] \<Longrightarrow> settled rnd m (xs @ [y]) = (settled rnd m xs \<and> \<not> both_short rnd m (last xs) y)"
  by (auto simp: settled_def successively_append_iff)

lemma settled_single [simp]: "settled rnd m [x]"
  by (simp add: settled_def)

lemma settled_prefix: "settled rnd m (xs @ ys) \<Longrightarrow> settled rnd m xs"
  by (simp add: settled_def successively_append_iff)

lemma settled_replace_last:
  assumes "xs \<noteq> []" and "settled rnd m xs" and "is_short rnd m (last xs)"
  shows "settled rnd m (butlast xs @ [z])"
proof (cases "butlast xs = []")
  case True
  then show ?thesis by simp
next
  case False
  from assms(1) have "xs = butlast xs @ [last xs]" by simp
  with assms(2) have "settled rnd m (butlast xs @ [last xs])" by simp
  with False have a: "settled rnd m (butlast xs)"
    and b: "\<not> both_short rnd m (last (butlast xs)) (last xs)"
    by (simp_all add: settled_snoc)
  from b assms(3) have "\<not> is_short rnd m (last (butlast xs))"
    by (simp add: both_short_def)
  then have "\<not> both_short rnd m (last (butlast xs)) z"
    by (simp add: both_short_def)
  with a False show ?thesis by (simp add: settled_snoc)
qed

lemma merge_loop_settled:
  "acc \<noteq> [] \<Longrightarrow> settled rnd m acc \<Longrightarrow>
     merge_loop rnd m acc segs \<noteq> [] \<and> settled rnd m (merge_loop rnd m acc segs)"
proof (induction segs arbitrary: acc)
  case Nil
  then show ?case by simp
next
  case (Cons s rest)
  show ?case
  proof (cases "is_short rnd m s \<and> is_short rnd m (last acc)")
    case True
    let ?acc' = "butlast acc @ [\<lparr>start_time = start_time (last acc), end_time = end_time s\<rparr>]"
    from Cons.prems True have "settled rnd m ?acc'"
      by (intro settled_replace_last) simp_all
    then have "merge_loop rnd m ?acc' rest \<noteq> [] \<and> settled rnd m (merge_loop rnd m ?acc' rest)"
      by (intro Cons.IH) simp_all
    with True show ?thesis by (simp add: is_short_def duration_def Let_def)
  next
    case False
    then have nb: "\<not> both_short rnd m (last acc) s" by (auto simp: both_short_def)
    with Cons.prems have "settled rnd m (acc @ [s])" by (simp add: settled_snoc)
    then have "merge_loop rnd m (acc @ [s]) rest \<noteq> [] \<and> settled rnd m (merge_loop rnd m (acc @ [s]) rest)"
      by (intro Cons.IH) simp_all
    with False show ?thesis by (auto simp: is_short_def duration_def Let_def)
  qed
qed

lemma merge_loop_fixed:
  "acc \<noteq> [] \<Longrightarrow> settled rnd m (acc @ segs) \<Longrightarrow> merge_loop rnd m acc segs = acc @ segs"
proof (induction segs arbitrary: acc)
  case Nil
  then show ?case by simp
next
  case (Cons s rest)
  from Cons.prems(2) have all: "settled rnd m ((acc @ [s]) @ rest)" by simp
  then have "settled rnd m (acc @ [s])" by (rule settled_prefix)
  with Cons.prems(1) have "\<not> both_short rnd m (last acc) s" by (simp add: settled_snoc)
  then have step: "merge_loop rnd m acc (s # rest) = merge_loop rnd m (acc @ [s]) rest"
    by (auto simp: both_short_def is_short_def duration_def Let_def)
  from all have "merge_loop rnd m (acc @ [s]) rest = (acc @ [s]) @ rest"
    by (intro Cons.IH) simp_all
  with step show ?case by simp
qed

lemma merge_loop_step:
  "merge_loop rnd m acc (s # rest) = merge_loop rnd m (merge_short_step rnd m acc s) rest"
  by (cases "last acc") (auto simp: merge_short_step_def is_short_def duration_def Let_def)

lemma merge_loop_foldl: "merge_loop rnd m acc segs = foldl (merge_short_step rnd m) acc segs"
proof (induction segs arbitrary: acc)
  case Nil
  then show ?case by simp
next
  case (Cons s rest)
  have "merge_loop rnd m acc (s # rest) = merge_loop rnd m (merge_short_step rnd m acc s) rest"
    by (rule merge_loop_step)
  also have "\<dots> = foldl (merge_short_step rnd m) (merge_short_step rnd m acc s) rest"
    by (rule Cons.IH)
  finally show ?case by simp
qed

lemma merge_loop_keeps_butlast:
  "acc \<noteq> [] \<Longrightarrow> take (length acc - 1) (merge_loop rnd m acc segs) = butlast acc"
proof (induction segs arbitrary: acc)
  case Nil
  then show ?case by (simp add: butlast_conv_take)
next
  case (Cons s rest)
  show ?case
  proof (cases "is_short rnd m s \<and> is_short rnd m (last acc)")
    case True
    let ?acc' = "butlast acc @ [\<lparr>start_time = start_time (last acc), end_time = end_time s\<rparr>]"
    have "take (length ?acc' - 1) (merge_loop rnd m ?acc' rest) = butlast ?acc'"
      by (intro Cons.IH) simp
    with True show ?thesis by (simp add: is_short_def duration_def Let_def)
  next
    case False
    have "take (length (acc @ [s]) - 1) (merge_loop rnd m (acc @ [s]) rest) = butlast (acc @ [s])"
      by (intro Cons.IH) simp
    then have full: "take (length acc) (merge_loop rnd m (acc @ [s]) rest) = acc" by simp
    have "take (length acc - 1) (merge_loop rnd m (acc @ [s]) rest)
            = take (length acc - 1) (take (length acc) (merge_loop rnd m (acc @ [s]) rest))"
      by (simp add: min_def)
    also have "\<dots> = butlast acc" by (simp add: full butlast_conv_take)
    finally show ?thesis using False by (auto simp: is_short_def duration_def Let_def)
  qed
qed

lemma merge_loop_keeps_long:
  assumes "acc \<noteq> []" and "\<not> is_short rnd m (last acc)"
  shows "take (length acc) (merge_loop rnd m acc segs) = acc"
proof (cases segs)
  case Nil
  then show ?thesis by simp
next
  case (Cons s rest)
  have "take (length (acc @ [s]) - 1) (merge_loop rnd m (acc @ [s]) rest) = butlast (acc @ [s])"
    by (intro merge_loop_keeps_butlast) simp
  with assms(2) Cons show ?thesis by (simp add: is_short_def duration_def Let_def)
qed

text \<open>
  C8.  \<^verbatim>\<open>_merge_short_segments\<close> is idempotent: for every list of keep-segments,
  every minimum duration and every rounding of the subtraction, merging the merged list
  again returns it unchanged.
\<close>

theorem merge_short_segments_idempotent:
  "merge_short_segments rnd m (merge_short_segments rnd m segments) = merge_short_segments rnd m segments"
proof (cases "segments = [] \<or> length segments = 1")
  case True
  then show ?thesis by (auto simp: merge_short_segments_def)
next
  case False
  define r where "r = merge_loop rnd m [hd segments] (tl segments)"
  have r: "r \<noteq> [] \<and> settled rnd m r"
    unfolding r_def by (intro merge_loop_settled) simp_all
  from False have out: "merge_short_segments rnd m segments = r"
    by (simp add: merge_short_segments_def r_def)
  have "merge_short_segments rnd m r = r"
  proof (cases "length r = 1")
    case True
    with r show ?thesis by (simp add: merge_short_segments_def)
  next
    case False
    from r have "settled rnd m ([hd r] @ tl r)" by simp
    then have "merge_loop rnd m [hd r] (tl r) = [hd r] @ tl r"
      by (intro merge_loop_fixed) simp_all
    with r False show ?thesis by (simp add: merge_short_segments_def)
  qed
  with out show ?thesis by simp
qed

text \<open>
  C2.  For a non-empty list of keep-segments the code is the specified single pass:
  seeded with the first segment, each later segment is merged into the accumulator's
  last segment (only that segment's end changes) exactly when the duration of the segment
  and the duration of the accumulator's last segment are both strictly below the minimum,
  and appended unchanged otherwise.  An accumulator whose last segment is not short is
  never touched by the rest of the pass, so a short segment next to a long one is not
  absorbed.  A duration is the float difference the code computes, so this holds for
  every rounding of the subtraction.
\<close>

theorem merge_short_segments_policy:
  "segments \<noteq> [] \<Longrightarrow>
     merge_short_segments rnd m segments = merge_short_spec rnd m segments
     \<and> (\<forall>acc rest. acc \<noteq> [] \<and> \<not> is_short rnd m (last acc)
           \<longrightarrow> take (length acc) (merge_loop rnd m acc rest) = acc)"
proof
  assume ne: "segments \<noteq> []"
  show "merge_short_segments rnd m segments = merge_short_spec rnd m segments"
  proof (cases "length segments = 1")
    case True
    then obtain s where "segments = [s]" by (cases segments) auto
    then show ?thesis by (simp add: merge_short_segments_def merge_short_spec_def)
  next
    case False
    with ne show ?thesis
      by (simp add: merge_short_segments_def merge_short_spec_def merge_loop_foldl)
  qed
next
  show "\<forall>acc rest. acc \<noteq> [] \<and> \<not> is_short rnd m (last acc)
           \<longrightarrow> take (length acc) (merge_loop rnd m acc rest) = acc"
    by (simp add: merge_loop_keeps_long)
qed

text \<open>
  Three runs.  With exact subtraction the scenario of the specification merges its first
  two segments.  The keep-list \<^verbatim>\<open>[{0, 0.2}, {0.30000000000000004, 5.3}]\<close> with the
  minimum 5.0 is written below with the exact values of its doubles: the exact duration
  of the second segment is just below 5, its double is 5.0, so under the double rounding
  the segment is not short and is appended, while exact subtraction would merge it.
\<close>

theorem merge_short_segments_policy_witness:
  "merge_short_segments id 10
        [\<lparr>start_time = 0, end_time = 6\<rparr>, \<lparr>start_time = 12, end_time = 18\<rparr>,
         \<lparr>start_time = 24, end_time = 30\<rparr>]
      = [\<lparr>start_time = 0, end_time = 18\<rparr>, \<lparr>start_time = 24, end_time = 30\<rparr>]
   \<and> merge_short_segments (round_to_grid 50) 5
        [\<lparr>start_time = 0, end_time = 3602879701896397 / 2 ^ 54\<rparr>,
         \<lparr>start_time = 1351079888211149 / 2 ^ 52, end_time = 5967269506265907 / 2 ^ 50\<rparr>]
      = [\<lparr>start_time = 0, end_time = 3602879701896397 / 2 ^ 54\<rparr>,
         \<lparr>start_time = 1351079888211149 / 2 ^ 52, end_time = 5967269506265907 / 2 ^ 50\<rparr>]
   \<and> merge_short_segments id 5
        [\<lparr>start_time = 0, end_time = 3602879701896397 / 2 ^ 54\<rparr>,
         \<lparr>start_time = 1351079888211149 / 2 ^ 52, end_time = 5967269506265907 / 2 ^ 50\<rparr>]
      = [\<lparr>start_time = 0, end_time = 5967269506265907 / 2 ^ 50\<rparr>]"
  using merge_short_segments_policy
    [of "[\<lparr>start_time = 0, end_time = 6\<rparr>, \<lparr>start_time = 12, end_time = 18\<rparr>,
          \<lparr>start_time = 24, end_time = 30\<rparr>]" id 10]
    merge_short_segments_policy
    [of "[\<lparr>start_time = 0, end_time = 3602879701896397 / 2 ^ 54\<rparr>,
          \<lparr>start_time = 1351079888211149 / 2 ^ 52, end_time = 5967269506265907 / 2 ^ 50\<rparr>]"
        "round_to_grid 50" 5]
    merge_short_segments_policy
    [of "[\<lparr>start_time = 0, end_time = 3602879701896397 / 2 ^ 54\<rparr>,
          \<lparr>start_time = 1351079888211149 / 2 ^ 52, end_time = 5967269506265907 / 2 ^ 50\<rparr>]"
        id 5]
  by (simp add: merge_short_spec_def merge_short_step_def is_short_def duration_def
        round_to_grid_def)

subsection \<open>The complement\<close>

lemma between_keep_from:
  "segments_between (r # rs) @ closing (end_time (last (r # rs))) D
   = keep_from (end_time r) rs D"
proof (induction rs arbitrary: r)
  case Nil
  then show ?case by (simp add: closing_def)
next
  case (Cons x xs)
  have "segments_between (r # x # xs) @ closing (end_time (last (r # x # xs))) D
        = (if end_time r < start_time x
           then [\<lparr>start_time = end_time r, end_time = start_time x\<rparr>] else [])
          @ (segments_between (x # xs) @ closing (end_time (last (x # xs))) D)"
    by (simp add: Let_def)
  also have "\<dots> = keep_from (end_time r) (x # xs) D"
    by (simp only: Cons.IH keep_from.simps)
  finally show ?case .
qed

lemma keep_keep_from:
  assumes "rs \<noteq> []" shows "get_segments_to_keep rs D = keep_from 0 rs D"
proof -
  from assms obtain r rest where rs: "rs = r # rest" by (cases rs) auto
  have "get_segments_to_keep (r # rest) D
        = (if 0 < start_time r then [\<lparr>start_time = 0, end_time = start_time r\<rparr>] else [])
          @ (segments_between (r # rest) @ closing (end_time (last (r # rest))) D)"
    by (simp add: get_segments_to_keep_def closing_def)
  also have "\<dots> = keep_from 0 (r # rest) D"
    by (simp only: between_keep_from keep_from.simps)
  finally show ?thesis by (simp only: rs)
qed

lemma filter_eq_single: "distinct ys \<Longrightarrow> k \<in> set ys \<Longrightarrow> filter (\<lambda>x. x = k) ys = [k]"
  by (induction ys) (auto simp: filter_empty_conv)

lemma mset_weave: "mset (weave a rs D) = mset (keep_from a rs D @ rs)"
  by (induction rs arbitrary: a) simp_all

lemma tiles_weave: "chain a rs D \<Longrightarrow> tiles a D (weave a rs D)"
  by (induction rs arbitrary: a) auto

lemma valid_chain:
  "list_all (\<lambda>s. start_time s < end_time s \<and> end_time s \<le> D) rs \<Longrightarrow>
   sorted_wrt (\<lambda>a b. end_time a \<le> start_time b) rs \<Longrightarrow>
   a \<le> D \<Longrightarrow> (\<forall>s\<in>set rs. a \<le> start_time s) \<Longrightarrow> chain a rs D"
  by (induction rs arbitrary: a) auto

lemma tiles_lower: "tiles a b xs \<Longrightarrow> \<forall>s\<in>set xs. a \<le> start_time s"
  by (induction xs arbitrary: a) fastforce+

lemma tiles_strict: "tiles a b xs \<Longrightarrow> sorted_wrt (<) (map start_time xs)"
proof (induction xs arbitrary: a)
  case Nil
  then show ?case by simp
next
  case (Cons s rest)
  then have t: "tiles (end_time s) b rest" and lt: "start_time s < end_time s" by simp_all
  from tiles_lower [OF t] lt have "\<forall>x\<in>set rest. start_time s < start_time x" by fastforce
  with Cons.IH [OF t] show ?case by simp
qed

lemma sort_key_unique:
  assumes m: "mset ys = mset xs" and s: "sorted_wrt (<) (map f ys)"
  shows "sort_key f xs = ys"
proof (rule properties_for_sort_key [OF m])
  from s show "sorted (map f ys)"
    by (simp add: strict_sorted_iff)
next
  fix k assume k: "k \<in> set ys"
  from s have d: "distinct (map f ys)" by (simp add: strict_sorted_iff)
  then have inj: "inj_on f (set ys)" and dy: "distinct ys" by (simp_all add: distinct_map)
  from inj k have "\<And>x. x \<in> set ys \<Longrightarrow> (f k = f x) = (x = k)"
    by (auto dest: inj_onD)
  then have "filter (\<lambda>x. f k = f x) ys = filter (\<lambda>x. x = k) ys"
    by (intro filter_cong) simp_all
  also from dy k have "\<dots> = [k]"
    by (rule filter_eq_single)
  finally have fy: "filter (\<lambda>x. f k = f x) ys = [k]" .
  have "mset (filter (\<lambda>x. f k = f x) xs) = mset (filter (\<lambda>x. f k = f x) ys)"
    by (simp add: m)
  also have "\<dots> = {#k#}" by (simp only: fy mset.simps)
  finally have "filter (\<lambda>x. f k = f x) xs = [k]" by (simp only: mset_single_iff)
  with fy show "filter (\<lambda>x. f k = f x) ys = filter (\<lambda>x. f k = f x) xs" by simp
qed


text \<open>
  C1.  For a duration \<open>D > 0\<close> and a non-empty remove-list that is sorted by start,
  pairwise non-overlapping, of positive durations and inside \<open>[0, D]\<close>, the keep-list
  of \<^verbatim>\<open>_get_segments_to_keep\<close> together with the remove-list, sorted by start, tiles
  \<open>[0, D)\<close> with no gap and no overlap; and for an empty remove-list the keep-list is
  the single segment \<open>[0, D)\<close>.
\<close>

theorem complement_tiles:
  "(0 < D \<and> rs \<noteq> [] \<and> valid_remove rs D
      \<longrightarrow> tiles 0 D (sort_key start_time (get_segments_to_keep rs D @ rs)))
   \<and> (0 < D \<longrightarrow> get_segments_to_keep [] D = [\<lparr>start_time = 0, end_time = D\<rparr>])"
proof (intro conjI impI)
  assume a: "0 < D \<and> rs \<noteq> [] \<and> valid_remove rs D"
  then have "chain 0 rs D"
    by (intro valid_chain) (auto simp: valid_remove_def list_all_iff)
  then have t: "tiles 0 D (weave 0 rs D)" by (rule tiles_weave)
  from a have "mset (weave 0 rs D) = mset (get_segments_to_keep rs D @ rs)"
    by (simp add: mset_weave keep_keep_from)
  then have "sort_key start_time (get_segments_to_keep rs D @ rs) = weave 0 rs D"
    using tiles_strict [OF t] by (rule sort_key_unique)
  with t show "tiles 0 D (sort_key start_time (get_segments_to_keep rs D @ rs))" by simp
next
  show "get_segments_to_keep [] D = [\<lparr>start_time = 0, end_time = D\<rparr>]"
    by (simp add: get_segments_to_keep_def)
qed

theorem complement_tiles_witness:
  "0 < (30::rat)
   \<and> [\<lparr>start_time = 6, end_time = 12\<rparr>, \<lparr>start_time = 18, end_time = 24\<rparr>] \<noteq> []
   \<and> valid_remove [\<lparr>start_time = 6, end_time = 12\<rparr>, \<lparr>start_time = 18, end_time = 24\<rparr>] 30
   \<and> get_segments_to_keep [\<lparr>start_time = 6, end_time = 12\<rparr>, \<lparr>start_time = 18, end_time = 24\<rparr>] 30
       = [\<lparr>start_time = 0, end_time = 6\<rparr>, \<lparr>start_time = 12, end_time = 18\<rparr>,
          \<lparr>start_time = 24, end_time = 30\<rparr>]
   \<and> tiles 0 30 (sort_key start_time
         (get_segments_to_keep [\<lparr>start_time = 6, end_time = 12\<rparr>, \<lparr>start_time = 18, end_time = 24\<rparr>] 30
          @ [\<lparr>start_time = 6, end_time = 12\<rparr>, \<lparr>start_time = 18, end_time = 24\<rparr>]))
   \<and> get_segments_to_keep [] 30 = [\<lparr>start_time = 0, end_time = 30\<rparr>]"
  using complement_tiles [of 30 "[\<lparr>start_time = 6, end_time = 12\<rparr>, \<lparr>start_time = 18, end_time = 24\<rparr>]"]
  by (simp add: valid_remove_def get_segments_to_keep_def)

subsection \<open>Validation and the caller's dicts\<close>










text \<open>
  C3.  Clamping and sorting happen as claimed, but a remove-segment left with
  \<open>end \<le> start\<close> is only reported: for a 30 second video and the single
  remove-segment \<open>[40, 50)\<close>, validation clamps the end to 30, logs the warning that
  reads "zero or negative duration, skipping", and the segment \<open>(40, 30)\<close> is still
  passed to \<^verbatim>\<open>_get_segments_to_keep\<close>, which answers with the keep-segment
  \<open>[0, 40)\<close>, longer than the video.
\<close>

theorem degenerate_segment_reaches_complement:
  "(let p = edit_video_plan rnd 5
             ((\<lambda>_. Map.empty)(0 := [''start_time'' \<mapsto> 40, ''end_time'' \<mapsto> 50])) [0] 30
    in warnings p = [End_clamped 0, Non_positive_duration 0]
       \<and> removed p = [\<lparr>start_time = 40, end_time = 30\<rparr>]
       \<and> kept p = Inr [\<lparr>start_time = 0, end_time = 40\<rparr>])"
  by (simp add: edit_video_plan_def sorted_by_start_def validate_segments_def deref_def
        get_segments_to_keep_def merge_short_segments_def Let_def)

section \<open>Properties of frame selection\<close>

subsection \<open>Truncation and ranges\<close>

lemma py_int_nonneg: "0 \<le> x \<Longrightarrow> py_int x = \<lfloor>x\<rfloor>"
  by (simp add: py_int_def)

lemma py_int_of_int_div:
  "0 < d \<Longrightarrow> py_int (of_int k / of_int d) = (if k < 0 then - ((- k) div d) else k div d)"
proof -
  assume d: "0 < d"
  show ?thesis
  proof (cases "k < 0")
    case True
    with d have neg: "(of_int k / of_int d :: rat) < 0" by (simp add: divide_neg_pos)
    have "\<lceil>of_int k / of_int d :: rat\<rceil> = - \<lfloor>of_int (- k) / of_int d :: rat\<rfloor>"
      by (simp add: ceiling_def)
    also have "\<dots> = - ((- k) div d)" by (simp only: floor_divide_of_int_eq)
    finally show ?thesis using True neg by (simp add: py_int_def)
  next
    case False
    with d have "0 \<le> (of_int k / of_int d :: rat)" by simp
    then have "py_int (of_int k / of_int d) = \<lfloor>of_int k / of_int d :: rat\<rfloor>"
      by (rule py_int_nonneg)
    with False show ?thesis by (simp add: floor_divide_of_int_eq)
  qed
qed

lemma start_frame_eq:
  "py_int (of_int fc * 0.05) = (if fc < 0 then - ((- fc) div 20) else fc div 20)"
proof -
  have eq: "(of_int fc * 0.05 :: rat) = of_int fc / of_int 20" by simp
  show ?thesis unfolding eq by (rule py_int_of_int_div) simp
qed

lemma end_frame_eq:
  "py_int (of_int fc * 0.95) = (if fc < 0 then - ((- (19 * fc)) div 20) else (19 * fc) div 20)"
proof -
  have eq: "(of_int fc * 0.95 :: rat) = of_int (19 * fc) / of_int 20" by simp
  have "py_int (of_int (19 * fc) / of_int 20)
        = (if 19 * fc < 0 then - ((- (19 * fc)) div 20) else (19 * fc) div 20)"
    by (rule py_int_of_int_div) simp
  then show ?thesis unfolding eq by simp
qed

lemma sample_rate_eq: "key_moment_sample_rate fc = max 1 (fc div 500)"
  using py_int_of_int_div [of 500 fc]
  by (auto simp: key_moment_sample_rate_def max_def)

lemma sample_rate_pos: "0 < key_moment_sample_rate fc"
  by (simp add: key_moment_sample_rate_def)

lemma range_collapses: 
  "(py_int (of_int fc * 0.95) - py_int (of_int fc * 0.05) \<le> 0) = (fc \<le> 1)"
  unfolding start_frame_eq end_frame_eq by auto

lemma set_py_range: "0 < r \<Longrightarrow> set (py_range a b r) \<subseteq> {a..<b}"
proof (induction a b r rule: py_range.induct)
  case (1 start stop step)
  show ?case
  proof (cases "stop \<le> start")
    case True
    then show ?thesis by (simp add: py_range.simps [of start stop step])
  next
    case False
    with 1 have "set (py_range (start + step) stop step) \<subseteq> {start + step..<stop}" by simp
    with False 1(2) show ?thesis
      by (auto simp: py_range.simps [of start stop step])
  qed
qed

lemma py_range_increasing: "0 < r \<Longrightarrow> sorted_wrt (<) (py_range a b r)"
proof (induction a b r rule: py_range.induct)
  case (1 start stop step)
  show ?case
  proof (cases "stop \<le> start")
    case True
    then show ?thesis by (simp add: py_range.simps [of start stop step])
  next
    case False
    with 1 have ih: "sorted_wrt (<) (py_range (start + step) stop step)" by simp
    from set_py_range [OF 1(2), of "start + step" stop] 1(2)
    have "\<forall>x\<in>set (py_range (start + step) stop step). start < x" by fastforce
    with False 1(2) ih show ?thesis
      by (simp add: py_range.simps [of start stop step])
  qed
qed

lemma length_py_range: "0 < r \<Longrightarrow> length (py_range a b r) = nat ((b - a + r - 1) div r)"
proof (induction a b r rule: py_range.induct)
  case (1 start stop step)
  show ?case
  proof (cases "stop \<le> start")
    case True
    with 1(2) have "stop - start + step - 1 < step" by simp
    with 1(2) have "(stop - start + step - 1) div step \<le> 0"
      by (metis div_pos_pos_trivial nle_le pos_imp_zdiv_nonneg_iff)
    with True show ?thesis by (simp add: py_range.simps [of start stop step])
  next
    case False
    with 1 have ih: "length (py_range (start + step) stop step)
                     = nat ((stop - (start + step) + step - 1) div step)" by simp
    have "stop - start + step - 1 = (stop - (start + step) + step - 1) + step"
      by simp
    then have "(stop - start + step - 1) div step
               = ((stop - (start + step) + step - 1) + step) div step"
      by (rule arg_cong)
    also have "\<dots> = (stop - (start + step) + step - 1) div step + 1"
      using 1(2) by (simp only: div_add_self2)
    finally have "(stop - start + step - 1) div step
                  = (stop - (start + step) + step - 1) div step + 1" .
    moreover have "0 \<le> (stop - (start + step) + step - 1) div step"
      using False 1(2) by (simp add: pos_imp_zdiv_nonneg_iff)
    ultimately show ?thesis using False 1(2) ih
      by (simp add: py_range.simps [of start stop step] nat_add_distrib)
  qed
qed


lemma nth_py_range:
  "0 < r \<Longrightarrow> k < length (py_range a b r) \<Longrightarrow> py_range a b r ! k = a + int k * r"
proof (induction a b r arbitrary: k rule: py_range.induct)
  case (1 start stop step)
  show ?case
  proof (cases "stop \<le> start")
    case True
    with 1(3) show ?thesis by (simp add: py_range.simps [of start stop step])
  next
    case False
    with 1(2) have unfold: "py_range start stop step = start # py_range (start + step) stop step"
      by (simp add: py_range.simps [of start stop step])
    show ?thesis
    proof (cases k)
      case 0
      then show ?thesis by (simp add: unfold)
    next
      case (Suc j)
      with 1(3) have "j < length (py_range (start + step) stop step)" by (simp add: unfold)
      with 1 False have "py_range (start + step) stop step ! j = start + step + int j * step"
        by simp
      with Suc show ?thesis by (simp add: unfold algebra_simps)
    qed
  qed
qed

lemma py_range_closed_form:
  assumes "0 < r"
  shows "py_range a b r = map (\<lambda>k. a + int k * r) [0..<nat ((b - a + r - 1) div r)]"
proof (rule nth_equalityI)
  show "length (py_range a b r) = length (map (\<lambda>k. a + int k * r) [0..<nat ((b - a + r - 1) div r)])"
    using assms by (simp add: length_py_range)
next
  fix i assume "i < length (py_range a b r)"
  then show "py_range a b r ! i = map (\<lambda>k. a + int k * r) [0..<nat ((b - a + r - 1) div r)] ! i"
    using assms by (simp add: nth_py_range length_py_range)
qed

lemma start_frame_nonneg: "1 < fc \<Longrightarrow> 0 \<le> py_int (of_int fc * 0.05)"
  unfolding start_frame_eq by (simp add: pos_imp_zdiv_nonneg_iff)

subsection \<open>Candidate ranges of the three strategies\<close>

lemma end_frame_le: "0 \<le> fc \<Longrightarrow> py_int (of_int fc * 0.95) \<le> fc"
  unfolding end_frame_eq by simp

lemma usable_range_bounds:
  assumes "usable_range fc = (lo, hi)" and "1 < hi - lo"
  shows "0 \<le> lo \<and> hi \<le> fc \<and> 1 < fc"
proof (cases "py_int (of_int fc * 0.95) - py_int (of_int fc * 0.05) \<le> 0")
  case True
  with assms show ?thesis by (simp add: usable_range_def Let_def)
next
  case False
  then have fc: "1 < fc" using range_collapses [of fc] by simp
  from False assms have lo: "lo = py_int (of_int fc * 0.05)" and hi: "hi = py_int (of_int fc * 0.95)"
    by (simp_all add: usable_range_def Let_def)
  from fc have "0 \<le> lo" unfolding lo by (rule start_frame_nonneg)
  moreover from fc have "hi \<le> fc" unfolding hi by (intro end_frame_le) simp
  ultimately show ?thesis using fc by simp
qed

lemma uniform_code:
  assumes "usable_range fc = (lo, hi)"
  shows "uniform_frame_indices rnd n fc =
           (if n \<ge> hi - lo then Inr [lo..hi - 1]
            else if n = 0 then Inl ZeroDivisionError
            else Inr (map (\<lambda>i. py_int (rnd (of_int lo +
                              rnd (of_int i * rnd (of_int (hi - lo) / of_int n)))))
                        [0..n - 1]))"
  using assms
  by (auto simp: uniform_frame_indices_def usable_range_def Let_def split: if_splits)

lemma stepped_index_in_range:
  assumes mono: "\<And>x y. x \<le> y \<Longrightarrow> rnd x \<le> rnd y"
    and ints: "\<And>k. 0 \<le> k \<Longrightarrow> k \<le> fc \<Longrightarrow> rnd (of_int k) = of_int k"
    and rel: "\<And>x. 1 \<le> x \<Longrightarrow> rnd x \<le> x * (1 + eps)"
    and margin: "(1 + eps) * of_int ((n - 1) * (hi - lo)) \<le> of_int (n * (hi - lo - 1))"
    and range: "usable_range fc = (lo, hi)"
    and n: "0 < n" "n < hi - lo"
    and i: "0 \<le> i" "i \<le> n - 1"
  shows "lo \<le> py_int (rnd (of_int lo + rnd (of_int i * rnd (of_int (hi - lo) / of_int n))))
         \<and> py_int (rnd (of_int lo + rnd (of_int i * rnd (of_int (hi - lo) / of_int n)))) < hi"
proof -
  define u where "u = hi - lo"
  define step where "step = rnd (of_int u / of_int n)"
  define y where "y = rnd (of_int i * step)"
  from n have u1: "1 < u" by (simp add: u_def)
  from usable_range_bounds [OF range] u1 have lo0: "0 \<le> lo" and hifc: "hi \<le> fc" and fc: "1 < fc"
    by (simp_all add: u_def)
  have rnd0: "rnd 0 = 0" using ints [of 0] fc by simp
  have q0: "0 \<le> (of_int u / of_int n :: rat)" using n u1 by simp
  then have "rnd 0 \<le> step" unfolding step_def by (rule mono)
  then have step0: "0 \<le> step" by (simp add: rnd0)
  have "(1::rat) \<le> of_int u / of_int n" using n by (simp add: u_def)
  then have step_le: "step \<le> of_int u / of_int n * (1 + eps)"
    unfolding step_def by (rule rel)
  have "of_int i * step \<le> of_int (n - 1) * step"
    using i step0 by (intro mult_right_mono) simp_all
  also have "\<dots> \<le> of_int (n - 1) * (of_int u / of_int n * (1 + eps))"
    using n step_le by (intro mult_left_mono) simp_all
  also have "\<dots> = ((1 + eps) * of_int ((n - 1) * u)) / of_int n"
    by simp
  also have "\<dots> \<le> of_int (n * (u - 1)) / of_int n"
    using margin n by (intro divide_right_mono) (simp_all add: u_def)
  also have "\<dots> = of_int (u - 1)" using n by simp
  finally have prod_le: "of_int i * step \<le> of_int (u - 1)" .
  have prod0: "0 \<le> of_int i * step" using i step0 by simp
  have "y \<le> rnd (of_int (u - 1))" unfolding y_def using prod_le by (rule mono)
  also have "\<dots> = of_int (u - 1)" using u1 hifc lo0 by (intro ints) (simp_all add: u_def)
  finally have y_le: "y \<le> of_int (u - 1)" .
  have "rnd 0 \<le> y" unfolding y_def using prod0 by (rule mono)
  then have y0: "0 \<le> y" by (simp add: rnd0)
  have "rnd (of_int lo) \<le> rnd (of_int lo + y)" using y0 by (intro mono) simp
  moreover have "rnd (of_int lo) = of_int lo" using lo0 hifc u1 by (intro ints) (simp_all add: u_def)
  ultimately have low: "of_int lo \<le> rnd (of_int lo + y)" by simp
  have "rnd (of_int lo + y) \<le> rnd (of_int (hi - 1))"
    using y_le by (intro mono) (simp add: u_def)
  also have "\<dots> = of_int (hi - 1)" using lo0 hifc u1 by (intro ints) (simp_all add: u_def)
  finally have high: "rnd (of_int lo + y) \<le> of_int (hi - 1)" .
  from lo0 have "(0::rat) \<le> of_int lo" by simp
  then have nonneg: "0 \<le> rnd (of_int lo + y)" using low by (rule order_trans)
  then have eq: "py_int (rnd (of_int lo + y)) = \<lfloor>rnd (of_int lo + y)\<rfloor>" by (rule py_int_nonneg)
  from low have "lo \<le> \<lfloor>rnd (of_int lo + y)\<rfloor>" by (simp add: le_floor_iff)
  moreover from high have "\<lfloor>rnd (of_int lo + y)\<rfloor> \<le> hi - 1"
    by (metis floor_mono floor_of_int)
  ultimately have "lo \<le> py_int (rnd (of_int lo + y)) \<and> py_int (rnd (of_int lo + y)) < hi"
    unfolding eq by simp
  then show ?thesis by (simp only: y_def step_def u_def)
qed

text \<open>
  C4, as the code has it.  The uniform and the random strategy work on the usable range:
  the restricted range \<open>[int(0.05 * frame_count), int(0.95 * frame_count))\<close>, and the
  full range \<open>[0, frame_count)\<close> when the restricted one has no index, which happens
  exactly for \<open>frame_count \<le> 1\<close>.  Every index the uniform strategy proposes lies in
  the usable range (it proposes all of it when the target count reaches its size, and
  raises only for a target count of zero), and the random strategy draws from exactly the
  usable range.  The key-moment strategy probes
  \<open>range(start_frame, end_frame, sample_rate)\<close>, always inside the restricted range, and
  has no fallback.

  For the stepped indices of the uniform strategy the float operations matter.  The
  rounding is assumed monotone, exact on the integers from 0 to the frame count, and of
  relative error at most \<open>eps\<close> above 1; the last hypothesis asks that \<open>eps\<close> is small
  against the counts, \<open>eps * (num_frames - 1) * usable \<le> usable - num_frames\<close>.  Doubles
  round so with \<open>eps = 2^-53\<close>, which is small enough whenever
  \<open>num_frames * usable \<le> 2^53\<close>; exact arithmetic has \<open>eps = 0\<close>.
\<close>

theorem sampling_candidate_ranges:
  assumes mono: "\<And>x y. x \<le> y \<Longrightarrow> rnd x \<le> rnd y"
    and ints: "\<And>k. 0 \<le> k \<Longrightarrow> k \<le> frame_count \<Longrightarrow> rnd (of_int k) = of_int k"
    and rel: "\<And>x. 1 \<le> x \<Longrightarrow> rnd x \<le> x * (1 + eps)"
    and margin: "0 < num_frames \<Longrightarrow>
         num_frames < snd (usable_range frame_count) - fst (usable_range frame_count) \<Longrightarrow>
         (1 + eps) * of_int ((num_frames - 1)
              * (snd (usable_range frame_count) - fst (usable_range frame_count)))
         \<le> of_int (num_frames
              * (snd (usable_range frame_count) - fst (usable_range frame_count) - 1))"
  shows
  "(case usable_range frame_count of (lo, hi) \<Rightarrow>
      (\<exists>frame_indices. uniform_frame_indices rnd num_frames frame_count = Inr frame_indices
          \<and> set frame_indices \<subseteq> {lo..<hi}
          \<and> (num_frames \<ge> hi - lo \<longrightarrow> frame_indices = [lo..hi - 1]))
        \<or> (num_frames = 0 \<and> 0 < hi - lo
            \<and> uniform_frame_indices rnd num_frames frame_count = Inl ZeroDivisionError))
   \<and> (case usable_range frame_count of (lo, hi) \<Rightarrow>
        random_sample_arguments num_frames frame_count
          = ([lo..hi - 1], min (num_frames * 3) (hi - lo)))
   \<and> usable_range frame_count =
        (if frame_count \<le> 1 then (0, frame_count)
         else (py_int (of_int frame_count * 0.05), py_int (of_int frame_count * 0.95)))
   \<and> key_moment_probes frame_count =
        py_range (py_int (of_int frame_count * 0.05)) (py_int (of_int frame_count * 0.95))
          (key_moment_sample_rate frame_count)
   \<and> set (key_moment_probes frame_count)
        \<subseteq> {py_int (of_int frame_count * 0.05)..<py_int (of_int frame_count * 0.95)}"
proof -
  obtain lo hi where range: "usable_range frame_count = (lo, hi)" by (cases "usable_range frame_count")
  note code = uniform_code [OF range, of rnd num_frames]
  have uniform:
    "(\<exists>frame_indices. uniform_frame_indices rnd num_frames frame_count = Inr frame_indices
          \<and> set frame_indices \<subseteq> {lo..<hi}
          \<and> (num_frames \<ge> hi - lo \<longrightarrow> frame_indices = [lo..hi - 1]))
        \<or> (num_frames = 0 \<and> 0 < hi - lo
            \<and> uniform_frame_indices rnd num_frames frame_count = Inl ZeroDivisionError)"
  proof (cases "num_frames \<ge> hi - lo")
    case True
    then show ?thesis by (auto simp: code)
  next
    case False
    note less = this
    show ?thesis
    proof (cases "num_frames = 0")
      case True
      with less code show ?thesis by simp
    next
      case False
      let ?f = "\<lambda>i. py_int (rnd (of_int lo +
                  rnd (of_int i * rnd (of_int (hi - lo) / of_int num_frames))))"
      have "lo \<le> ?f i \<and> ?f i < hi" if "i \<in> set [0..num_frames - 1]" for i
      proof -
        from that have i: "0 \<le> i" "i \<le> num_frames - 1" by simp_all
        then have pos: "0 < num_frames" by simp
        from less have lt: "num_frames < hi - lo" by simp
        from margin pos lt range
        have m: "(1 + eps) * of_int ((num_frames - 1) * (hi - lo))
                 \<le> of_int (num_frames * (hi - lo - 1))" by simp
        show ?thesis
          by (rule stepped_index_in_range [OF mono ints rel m range pos lt i])
      qed
      then have "set (map ?f [0..num_frames - 1]) \<subseteq> {lo..<hi}" by auto
      with less False code show ?thesis by simp
    qed
  qed
  have random: "random_sample_arguments num_frames frame_count
          = ([lo..hi - 1], min (num_frames * 3) (hi - lo))"
    using range
    by (auto simp: random_sample_arguments_def usable_range_def Let_def split: if_splits)
  have collapse: "usable_range frame_count =
        (if frame_count \<le> 1 then (0, frame_count)
         else (py_int (of_int frame_count * 0.05), py_int (of_int frame_count * 0.95)))"
    unfolding usable_range_def Let_def range_collapses by simp
  have probes: "key_moment_probes frame_count =
        py_range (py_int (of_int frame_count * 0.05)) (py_int (of_int frame_count * 0.95))
          (key_moment_sample_rate frame_count)"
    by (simp add: key_moment_probes_def Let_def)
  have sub: "set (key_moment_probes frame_count)
        \<subseteq> {py_int (of_int frame_count * 0.05)..<py_int (of_int frame_count * 0.95)}"
    unfolding key_moment_probes_def Let_def by (rule set_py_range) (rule sample_rate_pos)
  have c1: "case usable_range frame_count of (lo, hi) \<Rightarrow>
      (\<exists>frame_indices. uniform_frame_indices rnd num_frames frame_count = Inr frame_indices
          \<and> set frame_indices \<subseteq> {lo..<hi}
          \<and> (num_frames \<ge> hi - lo \<longrightarrow> frame_indices = [lo..hi - 1]))
        \<or> (num_frames = 0 \<and> 0 < hi - lo
            \<and> uniform_frame_indices rnd num_frames frame_count = Inl ZeroDivisionError)"
    using uniform by (simp only: range prod.case)
  have c2: "case usable_range frame_count of (lo, hi) \<Rightarrow>
        random_sample_arguments num_frames frame_count
          = ([lo..hi - 1], min (num_frames * 3) (hi - lo))"
    using random by (simp only: range prod.case)
  show ?thesis
    by (rule conjI [OF c1 conjI [OF c2 conjI [OF collapse conjI [OF probes sub]]]])
qed

theorem sampling_candidate_ranges_witness:
  "usable_range 100 = (5, 95)
   \<and> uniform_frame_indices id 3 100 = Inr [5, 35, 65]
   \<and> set [5, 35, 65] \<subseteq> {5..<(95::int)}
   \<and> random_sample_arguments 3 100 = ([5..94], 9)"
proof -
  have range: "usable_range 100 = (5, 95)"
    by (simp add: usable_range_def py_int_def Let_def)
  have "(case usable_range 100 of (lo, hi) \<Rightarrow>
      (\<exists>frame_indices. uniform_frame_indices id 3 100 = Inr frame_indices
          \<and> set frame_indices \<subseteq> {lo..<hi}
          \<and> (3 \<ge> hi - lo \<longrightarrow> frame_indices = [lo..hi - 1]))
        \<or> ((3::int) = 0 \<and> 0 < hi - lo
            \<and> uniform_frame_indices id 3 100 = Inl ZeroDivisionError))
   \<and> (case usable_range 100 of (lo, hi) \<Rightarrow>
        random_sample_arguments 3 100 = ([lo..hi - 1], min (3 * 3) (hi - lo)))
   \<and> usable_range 100 =
        (if (100::int) \<le> 1 then (0, 100)
         else (py_int (of_int 100 * 0.05), py_int (of_int 100 * 0.95)))
   \<and> key_moment_probes 100 =
        py_range (py_int (of_int 100 * 0.05)) (py_int (of_int 100 * 0.95))
          (key_moment_sample_rate 100)
   \<and> set (key_moment_probes 100)
        \<subseteq> {py_int (of_int 100 * 0.05)..<py_int (of_int 100 * 0.95)}"
    by (rule sampling_candidate_ranges [of id 100 0 3]) (simp_all add: range)
  moreover have "uniform_frame_indices id 3 100 = Inr [5, 35, 65]"
    by (simp add: uniform_frame_indices_def py_int_def Let_def upto_rec1)
  ultimately show ?thesis
    by (simp add: range py_int_def)
qed

text \<open>
  With a single probe there is no previous frame, so no difference is scored: a fallback
  to the full range would not change what the key-moment strategy returns for a video
  of one frame.
\<close>

lemma single_probe_scores_nothing:
  "frame_diffs_loop read to_gray diff_score None [frame_idx] = []"
  by (simp split: option.splits)

text \<open>
  C4 as stated fails for the key-moment strategy: for a video of one frame the restricted
  range is empty, the uniform and random strategies fall back to \<open>[0, 1)\<close>, and the
  key-moment strategy probes nothing, although stepping through the full range would
  probe frame 0.
\<close>

theorem key_moment_no_fallback_counterexample:
  "py_int (of_int 1 * 0.95) - py_int (of_int 1 * 0.05) \<le> 0
   \<and> usable_range 1 = (0, 1)
   \<and> key_moment_probes 1 = []
   \<and> py_range 0 1 (key_moment_sample_rate 1) = [0]
   \<and> uniform_frame_indices id 1 1 = Inr [0]
   \<and> fst (random_sample_arguments 1 1) = [0]"
  by (simp add: key_moment_probes_def uniform_frame_indices_def random_sample_arguments_def
        usable_range_def sample_rate_eq py_int_def py_range.simps Let_def)

subsection \<open>The key-moment stride\<close>

text \<open>
  What the loop visits: the stride is \<open>max(1, frame_count div 500)\<close>, computed from the
  total frame count and truncated, and the probes are \<open>start_frame + k * stride\<close> for
  every \<open>k\<close> that keeps the index below \<open>end_frame\<close>.
\<close>

lemma key_moment_probes_closed_form:
  "key_moment_sample_rate frame_count = max 1 (frame_count div 500)
   \<and> key_moment_probes frame_count =
       (let start_frame = py_int (of_int frame_count * 0.05);
            end_frame = py_int (of_int frame_count * 0.95);
            stride = max 1 (frame_count div 500)
        in map (\<lambda>k. start_frame + int k * stride)
             [0..<nat ((end_frame - start_frame + stride - 1) div stride)])"
proof -
  have r: "key_moment_sample_rate frame_count = max 1 (frame_count div 500)"
    by (rule sample_rate_eq)
  have "0 < max 1 (frame_count div 500)" by simp
  then show ?thesis
    unfolding key_moment_probes_def Let_def r by (simp only: py_range_closed_form simp_thms)
qed

text \<open>
  C6.  The claim bounds the probes of the key-moment strategy by 500, and so does the
  comment of line 232 (\<^verbatim>\<open>Sample at most 500 frames\<close>).  The code does not keep
  the bound: the truncated stride is 1 for every frame count below 1000, so a video of
  999 frames is probed at all 900 indices from 49 to 948, and one of 556 frames at 501
  indices.
\<close>

theorem key_moment_probes_exceed_500:
  "key_moment_sample_rate 999 = 1
   \<and> length (key_moment_probes 999) = 900
   \<and> key_moment_sample_rate 556 = 1
   \<and> length (key_moment_probes 556) = 501"
proof -
  have "length (key_moment_probes 999) = 900"
    unfolding key_moment_probes_def Let_def
    by (simp add: length_py_range sample_rate_eq py_int_def)
  moreover have "length (key_moment_probes 556) = 501"
    unfolding key_moment_probes_def Let_def
    by (simp add: length_py_range sample_rate_eq py_int_def)
  ultimately show ?thesis
    by (simp add: sample_rate_eq)
qed

subsection \<open>Uniform sampling\<close>




subsection \<open>Ranking of the probes\<close>

lemma frame_diffs_loop_indices:
  "set (map fst (frame_diffs_loop read to_gray diff_score prev idxs)) \<subseteq> set idxs"
proof (induction idxs arbitrary: prev)
  case Nil
  then show ?case by simp
next
  case (Cons i rest)
  show ?case
  proof (cases "read i")
    case None
    with Cons.IH [of prev] show ?thesis by auto
  next
    case (Some frame)
    with Cons.IH [of "Some (to_gray frame)"] show ?thesis
      by (auto simp: Let_def split: option.splits)
  qed
qed

lemma frame_diffs_loop_increasing:
  "sorted_wrt (<) idxs \<Longrightarrow>
   sorted_wrt (<) (map fst (frame_diffs_loop read to_gray diff_score prev idxs))"
proof (induction idxs arbitrary: prev)
  case Nil
  then show ?case by simp
next
  case (Cons i rest)
  then have rest: "sorted_wrt (<) rest" and above: "\<forall>j\<in>set rest. i < j" by simp_all
  show ?case
  proof (cases "read i")
    case None
    with Cons.IH [OF rest, of prev] show ?thesis by simp
  next
    case (Some frame)
    from frame_diffs_loop_indices [of read to_gray diff_score "Some (to_gray frame)" rest] above
    have "\<forall>j\<in>set (map fst (frame_diffs_loop read to_gray diff_score (Some (to_gray frame)) rest)).
            i < j"
      by blast
    with Cons.IH [OF rest, of "Some (to_gray frame)"] Some show ?thesis
      by (auto simp: Let_def split: option.splits)
  qed
qed

lemma insort_key_ranked:
  assumes "sorted_wrt (\<lambda>a b. ranked_before b a) ys"
    and "\<forall>y\<in>set ys. fst y < fst z"
  shows "sorted_wrt (\<lambda>a b. ranked_before b a) (insort_key (\<lambda>x. fst (snd x)) z ys)"
  using assms
proof (induction ys)
  case Nil
  then show ?case by simp
next
  case (Cons y ys)
  show ?case
  proof (cases "fst (snd z) \<le> fst (snd y)")
    case True
    have "ranked_before t z" if "t \<in> set (y # ys)" for t
    proof -
      have "fst (snd y) \<le> fst (snd t)"
        using that Cons.prems(1) by (auto simp: ranked_before_def)
      with True have "fst (snd z) \<le> fst (snd t)" by simp
      moreover from that Cons.prems(2) have "fst t < fst z" by auto
      ultimately show ?thesis by (auto simp: ranked_before_def)
    qed
    with True Cons.prems(1) show ?thesis by simp
  next
    case False
    then have zy: "ranked_before z y" by (simp add: ranked_before_def)
    from Cons have ih: "sorted_wrt (\<lambda>a b. ranked_before b a) (insort_key (\<lambda>x. fst (snd x)) z ys)"
      by simp
    from Cons.prems(1) zy have "\<forall>t\<in>set (insort_key (\<lambda>x. fst (snd x)) z ys). ranked_before t y"
      by (auto simp: set_insort_key)
    with False ih show ?thesis by simp
  qed
qed

lemma sort_key_ranked:
  "sorted_wrt (\<lambda>a b. fst b < fst a) zs \<Longrightarrow>
   sorted_wrt (\<lambda>a b. ranked_before b a) (sort_key (\<lambda>x. fst (snd x)) zs)"
proof (induction zs)
  case Nil
  then show ?case by simp
next
  case (Cons z zs)
  then have "sorted_wrt (\<lambda>a b. ranked_before b a) (sort_key (\<lambda>x. fst (snd x)) zs)"
    and "\<forall>y\<in>set (sort_key (\<lambda>x. fst (snd x)) zs). fst y < fst z"
    by simp_all
  then have "sorted_wrt (\<lambda>a b. ranked_before b a)
               (insort_key (\<lambda>x. fst (snd x)) z (sort_key (\<lambda>x. fst (snd x)) zs))"
    by (rule insort_key_ranked)
  then show ?case by simp
qed

lemma sort_reverse_ranked:
  assumes "sorted_wrt (<) (map fst xs)"
  shows "sorted_wrt ranked_before (sort_reverse (\<lambda>x. fst (snd x)) xs)"
proof -
  from assms have "sorted_wrt (\<lambda>a b. fst a < fst b) xs" by (simp add: sorted_wrt_map)
  then have "sorted_wrt (\<lambda>a b. fst b < fst a) (rev xs)" by (simp add: sorted_wrt_rev)
  then have "sorted_wrt (\<lambda>a b. ranked_before b a) (sort_key (\<lambda>x. fst (snd x)) (rev xs))"
    by (rule sort_key_ranked)
  then show ?thesis by (simp add: sort_reverse_def sorted_wrt_rev)
qed

text \<open>
  C9.  The ranked list of the key-moment strategy is a rearrangement of the scored probes,
  in descending order of score, and probes with equal scores appear in their probe order,
  the lower frame index first.
\<close>

theorem key_moment_ranking_stable:
  "sorted_wrt ranked_before (key_moment_ranking read to_gray diff_score frame_count)
   \<and> mset (key_moment_ranking read to_gray diff_score frame_count)
       = mset (frame_diffs_loop read to_gray diff_score None (key_moment_probes frame_count))"
proof -
  have "sorted_wrt (<) (key_moment_probes frame_count)"
    unfolding key_moment_probes_def Let_def
    by (rule py_range_increasing) (rule sample_rate_pos)
  then have "sorted_wrt (<) (map fst
               (frame_diffs_loop read to_gray diff_score None (key_moment_probes frame_count)))"
    by (rule frame_diffs_loop_increasing)
  then have "sorted_wrt ranked_before (sort_reverse (\<lambda>x. fst (snd x))
               (frame_diffs_loop read to_gray diff_score None (key_moment_probes frame_count)))"
    by (rule sort_reverse_ranked)
  moreover have "mset (sort_reverse (\<lambda>x. fst (snd x))
               (frame_diffs_loop read to_gray diff_score None (key_moment_probes frame_count)))
             = mset (frame_diffs_loop read to_gray diff_score None (key_moment_probes frame_count))"
    by (simp add: sort_reverse_def)
  ultimately show ?thesis
    unfolding key_moment_ranking_def Let_def by (rule conjI)
qed

subsection \<open>The quality gate\<close>

text \<open>
  C5, as the code has it.  The gate has no check of the frame's size and no exception
  handler.  For every library: an error of the grey conversion is the outcome of the
  gate; the gate answers \<open>False\<close> exactly when the conversion succeeds and the brightness
  is below its minimum, or the contrast is below its minimum, or the sharpness is computed
  and below 100; it answers \<open>True\<close> exactly when all three values are computed and none
  is below its threshold.
\<close>

theorem quality_gate_verdict:
  "(cvtColor_gray lib frame = Inl err \<longrightarrow>
      is_good_quality_frame lib min_brightness min_contrast frame = Inl err)
   \<and> (is_good_quality_frame lib min_brightness min_contrast frame = Inr False \<longleftrightarrow>
        (\<exists>gray. cvtColor_gray lib frame = Inr gray
           \<and> (np_mean lib gray < min_brightness
              \<or> np_std lib gray < min_contrast
              \<or> (\<exists>sharpness. laplacian_var lib gray = Inr sharpness \<and> sharpness < 100))))
   \<and> (is_good_quality_frame lib min_brightness min_contrast frame = Inr True \<longleftrightarrow>
        (\<exists>gray sharpness. cvtColor_gray lib frame = Inr gray
           \<and> laplacian_var lib gray = Inr sharpness
           \<and> np_mean lib gray \<ge> min_brightness
           \<and> np_std lib gray \<ge> min_contrast
           \<and> sharpness \<ge> 100))"
  by (auto simp: is_good_quality_frame_def Let_def split: sum.splits)

theorem quality_gate_verdict_witness:
  "cvtColor_gray asserting_library [[], []] = Inl CvError
   \<and> is_good_quality_frame asserting_library 30 20 [[], []] = Inl CvError"
  using quality_gate_verdict [of asserting_library "[[], []]" CvError 30 20]
  by (simp add: asserting_library_def)

text \<open>
  C5 as stated fails: on a frame without pixels the colour conversion raises, and the gate
  raises with it instead of answering \<open>False\<close>.
\<close>

theorem quality_gate_raises_counterexample:
  "is_good_quality_frame asserting_library 30 20 [] = Inl CvError
   \<and> is_good_quality_frame asserting_library 30 20 [] \<noteq> Inr False"
  by (simp add: is_good_quality_frame_def asserting_library_def)

end
